theory Spec2Isabelle
  imports Complex_Main
begin

section \<open>JavaScript values seen by static/script.js\<close>

text \<open>
  The values the script handles come out of \<^verbatim>\<open>resp.json()\<close>, plus \<^verbatim>\<open>undefined\<close> for a
  property that is not there. A number is an IEEE double: every finite double is a
  rational, \<^verbatim>\<open>JSON.parse\<close> yields the infinities on overflow and never NaN; \<^verbatim>\<open>-0\<close> and
  \<^verbatim>\<open>+0\<close> are both \<open>Finite 0\<close> (the script only tests a number for truthiness and for
  membership in a Set, and neither tells the two zeros apart).

  A string is its UTF-8 byte sequence. Every character the script inspects or inserts
  literally (letters, digits, separators, the five HTML specials) is ASCII, and an ASCII
  byte never occurs inside a multi-byte sequence, so matching and replacing on bytes
  agrees with matching and replacing on UTF-16 code units.

  An object is the list of its own properties, in insertion order and with distinct keys.
\<close>

datatype jsnum = Finite rat | PosInfinity | NegInfinity

datatype jsval =
    JUndefined
  | JNull
  | JBool bool
  | JNum jsnum
  | JStr string
  | JArr "jsval list"
  | JObj "(string \<times> jsval) list"

datatype js_error = TypeError | URIError

text \<open>ToBoolean: what \<^verbatim>\<open>!v\<close>, \<^verbatim>\<open>a || b\<close>, \<^verbatim>\<open>a && b\<close> and \<^verbatim>\<open>if (v)\<close> test.\<close>

fun truthy :: "jsval \<Rightarrow> bool" where
  "truthy JUndefined = False"
| "truthy JNull = False"
| "truthy (JBool b) = b"
| "truthy (JNum n) = (n \<noteq> Finite 0)"
| "truthy (JStr s) = (s \<noteq> [])"
| "truthy (JArr xs) = True"
| "truthy (JObj kvs) = True"

fun typeof :: "jsval \<Rightarrow> string" where
  "typeof JUndefined = ''undefined''"
| "typeof JNull = ''object''"
| "typeof (JBool b) = ''boolean''"
| "typeof (JNum n) = ''number''"
| "typeof (JStr s) = ''string''"
| "typeof (JArr xs) = ''object''"
| "typeof (JObj kvs) = ''object''"

text \<open>
  Property read \<^verbatim>\<open>v.key\<close>, for the keys the script reads (\<^verbatim>\<open>source\<close>, \<^verbatim>\<open>title\<close>, \<^verbatim>\<open>file\<close>,
  \<^verbatim>\<open>filename\<close>, \<^verbatim>\<open>error\<close>, \<^verbatim>\<open>detail\<close>, \<^verbatim>\<open>answer\<close>, \<^verbatim>\<open>sources\<close>): none of them is on the
  prototype of an object, array, string, number or boolean, so only an own property of
  an object is found. Reading a property of \<^verbatim>\<open>null\<close> or \<^verbatim>\<open>undefined\<close> throws.
\<close>

fun getProp :: "jsval \<Rightarrow> string \<Rightarrow> js_error + jsval" where
  "getProp JUndefined key = Inl TypeError"
| "getProp JNull key = Inl TypeError"
| "getProp (JObj kvs) key = (case map_of kvs key of Some v \<Rightarrow> Inr v | None \<Rightarrow> Inr JUndefined)"
| "getProp v key = Inr JUndefined"

section \<open>extractKbDigits\<close>

definition isDigit :: "char \<Rightarrow> bool" where
  "isDigit c \<longleftrightarrow> c \<in> set ''0123456789''"

text \<open>\<^verbatim>\<open>(\d{3,})\<close>: greedy, so the whole run of digits at the head; it needs three.\<close>

definition digits3 :: "string \<Rightarrow> string option" where
  "digits3 s = (let ds = takeWhile isDigit s in if 3 \<le> length ds then Some ds else None)"

text \<open>
  \<^verbatim>\<open>[_\-]?(\d{3,})\<close>: the optional separator is greedy; when the digits fail after it the
  matcher backtracks and tries the digits without consuming it.
\<close>

definition sepDigits :: "string \<Rightarrow> string option" where
  "sepDigits s =
     (case s of
        [] \<Rightarrow> digits3 s
      | c # cs \<Rightarrow>
          if c = CHR ''_'' \<or> c = CHR ''-''
          then (case digits3 cs of Some ds \<Rightarrow> Some ds | None \<Rightarrow> digits3 s)
          else digits3 s)"

text \<open>
  \<^verbatim>\<open>/KB[_\-]?(\d{3,})/i\<close> tried at the head of the string; the result is capture group 1.
  Without the \<^verbatim>\<open>u\<close> flag, ignoring case lets \<^verbatim>\<open>K\<close> match only \<^verbatim>\<open>K\<close> and \<^verbatim>\<open>k\<close>.
\<close>

definition kbMatchHere :: "string \<Rightarrow> string option" where
  "kbMatchHere s =
     (case s of
        k # b # rest \<Rightarrow>
          if (k = CHR ''K'' \<or> k = CHR ''k'') \<and> (b = CHR ''B'' \<or> b = CHR ''b'')
          then sepDigits rest else None
      | _ \<Rightarrow> None)"

text \<open>\<^verbatim>\<open>filename.match(re)\<close> with a non-global regex: the leftmost start that matches.\<close>

fun kbMatch :: "string \<Rightarrow> string option" where
  "kbMatch [] = kbMatchHere []"
| "kbMatch (c # cs) =
     (case kbMatchHere (c # cs) of Some ds \<Rightarrow> Some ds | None \<Rightarrow> kbMatch cs)"

text \<open>
  \<^verbatim>\<open>s.padStart(n, c)\<close> with a one-character filler: \<open>n - length s\<close> copies of it in front,
  none when the string is already that long (the subtraction stops at 0).
\<close>

definition padStart :: "nat \<Rightarrow> char \<Rightarrow> string \<Rightarrow> string" where
  "padStart n c s = replicate (n - length s) c @ s"

text \<open>\<^verbatim>\<open>m[1].replace(/^0+/, "") || m[1]\<close>\<close>

definition stripZeros :: "string \<Rightarrow> string" where
  "stripZeros m1 =
     (let stripped = dropWhile (\<lambda>c. c = CHR ''0'') m1
      in if stripped \<noteq> [] then stripped else m1)"

text \<open>The result \<open>None\<close> is \<^verbatim>\<open>null\<close>.\<close>

definition extractKbDigits :: "jsval \<Rightarrow> string option" where
  "extractKbDigits filename =
     (if \<not> truthy filename \<or> typeof filename \<noteq> ''string'' then None
      else case filename of
        JStr s \<Rightarrow>
          (case kbMatch s of
             None \<Rightarrow> None
           | Some m1 \<Rightarrow> Some (padStart 9 (CHR ''0'') (stripZeros m1)))
      | _ \<Rightarrow> None)"

section \<open>escapeHtml\<close>

text \<open>\<^verbatim>\<open>s.replace(/c/g, r)\<close> for a one-character pattern: every occurrence, left to right.\<close>

definition replaceAll :: "char \<Rightarrow> string \<Rightarrow> string \<Rightarrow> string" where
  "replaceAll c r s = concat (map (\<lambda>x. if x = c then r else [x]) s)"

definition escapeHtml :: "jsval \<Rightarrow> string" where
  "escapeHtml unsafe =
     (if typeof unsafe \<noteq> ''string'' then []
      else case unsafe of
        JStr s \<Rightarrow>
          replaceAll (CHR 0x27) ''&#039;''
            (replaceAll (CHR 0x22) ''&quot;''
              (replaceAll (CHR ''>'') ''&gt;''
                (replaceAll (CHR ''<'') ''&lt;''
                  (replaceAll (CHR ''&'') ''&amp;'' s))))
      | _ \<Rightarrow> [])"

section \<open>encodeURIComponent\<close>

text \<open>
  The engine's \<^verbatim>\<open>encodeURIComponent\<close>: the unreserved characters stay, every other
  character becomes \<^verbatim>\<open>%XX\<close> for each byte of its UTF-8 encoding, which on a byte string is
  one escape per byte. It throws URIError on an unpaired surrogate; UTF-8 proper cannot
  carry one, and in the generalised three-byte form it is the byte \<open>0xED\<close> followed by a
  byte from \<open>0xA0\<close> to \<open>0xBF\<close>.
\<close>

definition uriUnreserved :: "char \<Rightarrow> bool" where
  "uriUnreserved c \<longleftrightarrow>
     c \<in> set (''ABCDEFGHIJKLMNOPQRSTUVWXYZ'' @ ''abcdefghijklmnopqrstuvwxyz'' @
              ''0123456789'' @ ''-_.!~*()'' @ [CHR 0x27])"

definition hexDigit :: "nat \<Rightarrow> char" where
  "hexDigit n = ''0123456789ABCDEF'' ! (n mod 16)"

definition percentEncode :: "char \<Rightarrow> string" where
  "percentEncode c =
     (let n = (of_char c :: nat) in [CHR ''%'', hexDigit (n div 16), hexDigit (n mod 16)])"

fun loneSurrogate :: "string \<Rightarrow> bool" where
  "loneSurrogate (a # b # cs) =
     ((a = CHR 0xED \<and> 0xA0 \<le> (of_char b :: nat) \<and> (of_char b :: nat) \<le> 0xBF)
      \<or> loneSurrogate (b # cs))"
| "loneSurrogate cs = False"

definition encodeURIComponent :: "string \<Rightarrow> js_error + string" where
  "encodeURIComponent s =
     (if loneSurrogate s then Inl URIError
      else Inr (concat (map (\<lambda>c. if uriUnreserved c then [c] else percentEncode c) s)))"

section \<open>The sources block of sendQuestion\<close>

text \<open>A computation that may throw: \<open>Inl\<close> is the thrown error.\<close>

definition andThen :: "'e + 'a \<Rightarrow> ('a \<Rightarrow> 'e + 'b) \<Rightarrow> 'e + 'b" where
  "andThen m f = (case m of Inl e \<Rightarrow> Inl e | Inr v \<Rightarrow> f v)"

text \<open>\<^verbatim>\<open>a || b\<close>: \<open>b\<close> is evaluated only when \<open>a\<close> is falsy.\<close>

definition jsOr :: "jsval \<Rightarrow> js_error + jsval \<Rightarrow> js_error + jsval" where
  "jsOr a b = (if truthy a then Inr a else b)"

text \<open>\<^verbatim>\<open>const rawName = (s && (s.source || s.title || s.file || s.filename)) || "";\<close>\<close>

definition resolveName :: "jsval \<Rightarrow> js_error + jsval" where
  "resolveName s =
     andThen
       (if truthy s
        then andThen (getProp s ''source'') (\<lambda>a. jsOr a
              (andThen (getProp s ''title'') (\<lambda>b. jsOr b
                (andThen (getProp s ''file'') (\<lambda>c. jsOr c
                  (getProp s ''filename''))))))
        else Inr s)
       (\<lambda>v. jsOr v (Inr (JStr [])))"

text \<open>
  \<^verbatim>\<open>seen.has(rawName)\<close> compares by SameValueZero: primitives by value, arrays and objects
  by reference. Every array or object that reaches the Set here is a property value of a
  different element of \<^verbatim>\<open>data.sources\<close>, and \<^verbatim>\<open>JSON.parse\<close> allocates each value afresh,
  so two of them are never the same reference.
\<close>

fun sameValueZero :: "jsval \<Rightarrow> jsval \<Rightarrow> bool" where
  "sameValueZero JUndefined JUndefined = True"
| "sameValueZero JNull JNull = True"
| "sameValueZero (JBool a) (JBool b) = (a = b)"
| "sameValueZero (JNum a) (JNum b) = (a = b)"
| "sameValueZero (JStr a) (JStr b) = (a = b)"
| "sameValueZero a b = False"

definition setHas :: "jsval list \<Rightarrow> jsval \<Rightarrow> bool" where
  "setHas seen v \<longleftrightarrow> (\<exists>x\<in>set seen. sameValueZero x v)"

text \<open>
  The \<^verbatim>\<open>data.sources.forEach\<close> loop over the Set \<^verbatim>\<open>seen\<close> (its elements in insertion
  order) and the array \<^verbatim>\<open>names\<close>.
\<close>

fun collectNames ::
  "jsval list \<Rightarrow> jsval list \<times> jsval list \<Rightarrow> js_error + (jsval list \<times> jsval list)" where
  "collectNames [] (seen, names) = Inr (seen, names)"
| "collectNames (s # ss) (seen, names) =
     andThen (resolveName s) (\<lambda>rawName.
       if \<not> setHas seen rawName
       then collectNames ss (seen @ [rawName], names @ [rawName])
       else collectNames ss (seen, names))"

text \<open>
  What the \<^verbatim>\<open>names.forEach\<close> body computes for one name: the locals \<^verbatim>\<open>padded\<close>,
  \<^verbatim>\<open>externalUrl\<close> and \<^verbatim>\<open>downloadUrl\<close> (\<open>None\<close> where the branch that sets them is not
  taken) and the markup it appends. In the spec's words \<open>nm\<close> is the display name,
  \<open>padded\<close> the KB id, \<open>externalUrl\<close> the view URL.
\<close>

record source_item =
  nm :: jsval
  padded :: "string option"
  externalUrl :: "string option"
  downloadUrl :: "string option"
  html :: string

definition dq :: string where
  "dq = [CHR 0x22]"

definition nl :: string where
  "nl = [CHR 0x0A]"

definition kbItemHtml :: "string \<Rightarrow> string \<Rightarrow> string \<Rightarrow> string" where
  "kbItemHtml external download label =
     ''<div class='source-item'>'' @ nl @
     replicate 18 (CHR '' '') @ ''- <a class='' @ dq @ ''kb-link'' @ dq @ '' href='' @ dq @
       external @ dq @ '' target='' @ dq @ ''_blank'' @ dq @ '' rel='' @ dq @
       ''noopener noreferrer'' @ dq @ ''>'' @ label @ ''</a>'' @ nl @
     replicate 18 (CHR '' '') @ ''&nbsp;'' @ nl @
     replicate 18 (CHR '' '') @ ''<a class='' @ dq @ ''kb-download'' @ dq @ '' href='' @ dq @
       download @ dq @ '' target='' @ dq @ ''_blank'' @ dq @ '' rel='' @ dq @
       ''noopener noreferrer'' @ dq @ '' title='' @ dq @ ''Download PDF'' @ dq @
       '' aria-label='' @ dq @ ''Download PDF'' @ dq @ ''>'' @
       [CHR 0xE2, CHR 0xAC, CHR 0x87, CHR 0xEF, CHR 0xB8, CHR 0x8F] @ ''</a>'' @ nl @
     replicate 16 (CHR '' '') @ ''</div>''"

definition plainItem :: "jsval \<Rightarrow> source_item" where
  "plainItem name =
     \<lparr>nm = name, padded = extractKbDigits name, externalUrl = None, downloadUrl = None,
      html = ''<div class='source-item'>- <em>'' @
             escapeHtml (if truthy name then name else JStr ''unknown'') @ ''</em></div>''\<rparr>"

definition sourceItem :: "jsval \<Rightarrow> js_error + source_item" where
  "sourceItem name =
     (case extractKbDigits name of
        None \<Rightarrow> Inr (plainItem name)
      | Some p \<Rightarrow>
          if truthy (JStr p)
          then andThen (encodeURIComponent p) (\<lambda>e1.
               andThen (encodeURIComponent p) (\<lambda>e2.
                 let external = ''https://resource.digital.thermofisher.com/kb/article.aspx?n='' @ e1;
                     download = ''/download_kb?kb='' @ e2;
                     safeText = (if truthy name then name else JStr ''KB Article'')
                 in Inr \<lparr>nm = name, padded = Some p, externalUrl = Some external,
                          downloadUrl = Some download,
                          html = kbItemHtml external download (escapeHtml safeText)\<rparr>))
          else Inr (plainItem name))"

fun sourceItems :: "jsval list \<Rightarrow> js_error + source_item list" where
  "sourceItems [] = Inr []"
| "sourceItems (name # names) =
     andThen (sourceItem name) (\<lambda>i. andThen (sourceItems names) (\<lambda>is. Inr (i # is)))"

text \<open>
  The spec's \<open>annotate\<close>: the dedupe loop followed by the per-name loop, on the elements
  of \<^verbatim>\<open>data.sources\<close>.
\<close>

definition annotate :: "jsval list \<Rightarrow> js_error + source_item list" where
  "annotate records =
     andThen (collectNames records ([], [])) (\<lambda>(seen, names). sourceItems names)"

text \<open>The value of \<^verbatim>\<open>metaHtml\<close> when \<^verbatim>\<open>pushMessage\<close> is reached.\<close>

definition buildMeta :: "jsval \<Rightarrow> js_error + string" where
  "buildMeta sources =
     (case sources of
        JArr records \<Rightarrow>
          if 0 < length records
          then andThen (annotate records) (\<lambda>items.
                 if 0 < length items
                 then Inr (''<div class='sources'><strong>Sources:</strong><br/>'' @
                           concat (map html items) @ ''</div>'')
                 else Inr [])
          else Inr ''<div class='small'>No sources returned.</div>''
      | _ \<Rightarrow> Inr ''<div class='small'>No sources returned.</div>'')"

section \<open>sendQuestion\<close>







text \<open>
  One child of \<^verbatim>\<open>chatEl\<close>: the class suffix of the wrapper, the value assigned to the
  bubble's \<^verbatim>\<open>innerText\<close>, and the \<^verbatim>\<open>innerHTML\<close> of the meta element when there is one.
\<close>

record message =
  role :: string
  text_of :: jsval
  meta :: "string option"

text \<open>
  The module-level \<^verbatim>\<open>chat_history\<close> and the parts of the page \<^verbatim>\<open>sendQuestion\<close> reads
  or writes: the children of \<^verbatim>\<open>chatEl\<close>, the text of the question input and the two
  \<^verbatim>\<open>disabled\<close> flags. The scroll position and the focus are left out.
\<close>

record ui_state =
  chat_history :: "(string \<times> jsval) list"
  chat :: "message list"
  question_value :: string
  question_disabled :: bool
  send_disabled :: bool

definition pushMessage :: "string \<Rightarrow> jsval \<Rightarrow> string option \<Rightarrow> ui_state \<Rightarrow> ui_state" where
  "pushMessage r t m st =
     st\<lparr>chat := chat st @
          [\<lparr>role = (if r = ''user'' then ''user'' else ''assistant''),
            text_of = t,
            meta = (case m of None \<Rightarrow> None | Some h \<Rightarrow> if h \<noteq> [] then Some h else None)\<rparr>]\<rparr>"





section \<open>The specification's notions\<close>

text \<open>
  The pattern of the spec, stated on the string and not through the matcher: at offset
  \<open>i\<close> stand a letter K, a letter B (either case), at most one separator \<open>_\<close> or \<open>-\<close>,
  and the digits \<open>ds\<close>, at least three of them.
\<close>

definition kbOccursAt :: "string \<Rightarrow> nat \<Rightarrow> string \<Rightarrow> bool" where
  "kbOccursAt name i ds \<longleftrightarrow>
     (\<exists>k b sep post.
        drop i name = k # b # sep @ ds @ post \<and>
        (k = CHR ''K'' \<or> k = CHR ''k'') \<and> (b = CHR ''B'' \<or> b = CHR ''b'') \<and>
        (sep = [] \<or> sep = ''_'' \<or> sep = ''-'') \<and>
        3 \<le> length ds \<and> (\<forall>d\<in>set ds. isDigit d))"

definition kbOccurs :: "string \<Rightarrow> bool" where
  "kbOccurs name \<longleftrightarrow> (\<exists>i ds. kbOccursAt name i ds)"

text \<open>
  The digit run of the first match: at the leftmost offset where the pattern occurs, the
  longest run there.
\<close>

definition firstDigitRun :: "string \<Rightarrow> string \<Rightarrow> bool" where
  "firstDigitRun name ds \<longleftrightarrow>
     (\<exists>i. kbOccursAt name i ds \<and>
          (\<forall>j<i. \<forall>ds'. \<not> kbOccursAt name j ds') \<and>
          (\<forall>ds'. kbOccursAt name i ds' \<longrightarrow> length ds' \<le> length ds))"

text \<open>
  Leading zeros stripped, an all-zero run kept as it is; then padded on the left to 9
  characters, a longer string left alone.
\<close>

definition specStrip :: "string \<Rightarrow> string" where
  "specStrip ds =
     (if \<forall>c\<in>set ds. c = CHR ''0'' then ds else dropWhile (\<lambda>c. c = CHR ''0'') ds)"

definition specPad9 :: "string \<Rightarrow> string" where
  "specPad9 r = (if length r < 9 then replicate (9 - length r) (CHR ''0'') @ r else r)"

text \<open>The entity that stands for a character in escaped text; any other character stands for itself.\<close>

definition htmlEntity :: "char \<Rightarrow> string" where
  "htmlEntity c =
     (if c = CHR ''&'' then ''&amp;''
      else if c = CHR ''<'' then ''&lt;''
      else if c = CHR ''>'' then ''&gt;''
      else if c = CHR 0x22 then ''&quot;''
      else if c = CHR 0x27 then ''&#039;''
      else [c])"

text \<open>The four name fields of a source record, in priority order.\<close>

definition nameKeys :: "string list" where
  "nameKeys = [''source'', ''title'', ''file'', ''filename'']"

text \<open>
  The display name as the spec words it: the first of the four fields that is present
  and not null wins, whatever its content; the empty string when there is none.
\<close>

definition specDisplayName :: "(string \<times> jsval) list \<Rightarrow> jsval" where
  "specDisplayName kvs =
     (case List.find (\<lambda>k. case map_of kvs k of Some v \<Rightarrow> v \<noteq> JNull | None \<Rightarrow> False) nameKeys of
        Some k \<Rightarrow> (case map_of kvs k of Some v \<Rightarrow> v | None \<Rightarrow> JStr [])
      | None \<Rightarrow> JStr [])"

text \<open>The same with "present and not null" replaced by "truthy".\<close>

definition truthyDisplayName :: "(string \<times> jsval) list \<Rightarrow> jsval" where
  "truthyDisplayName kvs =
     (case List.find (\<lambda>k. case map_of kvs k of Some v \<Rightarrow> truthy v | None \<Rightarrow> False) nameKeys of
        Some k \<Rightarrow> (case map_of kvs k of Some v \<Rightarrow> v | None \<Rightarrow> JStr [])
      | None \<Rightarrow> JStr [])"

text \<open>A value that is compared by content: anything but an array or an object.\<close>

definition isPrimitive :: "jsval \<Rightarrow> bool" where
  "isPrimitive v \<longleftrightarrow> (case v of JArr xs \<Rightarrow> False | JObj kvs \<Rightarrow> False | _ \<Rightarrow> True)"

text \<open>
  First-occurrence order: the first name stays, every later entry with the same name
  goes, and so on for the rest.
\<close>

fun firstOccurrences :: "jsval list \<Rightarrow> jsval list" where
  "firstOccurrences [] = []"
| "firstOccurrences (x # xs) = x # firstOccurrences (filter (\<lambda>y. \<not> sameValueZero x y) xs)"

text \<open>The two link templates of the spec.\<close>

definition viewPrefix :: string where
  "viewPrefix = ''https://resource.digital.thermofisher.com/kb/article.aspx?n=''"

definition downloadPrefix :: string where
  "downloadPrefix = ''/download_kb?kb=''"

text \<open>
  A record with no usable name: none of the four fields holds a string
  (\<open>noNameField\<close>), or none holds a truthy value (\<open>noTruthyNameField\<close>).
\<close>

definition noNameField :: "(string \<times> jsval) list \<Rightarrow> bool" where
  "noNameField kvs \<longleftrightarrow>
     list_all (\<lambda>k. case map_of kvs k of Some (JStr s) \<Rightarrow> False | _ \<Rightarrow> True) nameKeys"

definition noTruthyNameField :: "(string \<times> jsval) list \<Rightarrow> bool" where
  "noTruthyNameField kvs \<longleftrightarrow>
     list_all (\<lambda>k. case map_of kvs k of Some v \<Rightarrow> \<not> truthy v | None \<Rightarrow> True) nameKeys"

text \<open>The dedupe loop on the resolved names alone, with the Set as accumulator.\<close>

fun keepFirst :: "jsval list \<Rightarrow> jsval list \<Rightarrow> jsval list" where
  "keepFirst acc [] = acc"
| "keepFirst acc (x # xs) = (if setHas acc x then keepFirst acc xs else keepFirst (acc @ [x]) xs)"


section \<open>The matcher finds the first occurrence of the pattern\<close>

lemma digits3_Some: "digits3 s = Some ds \<longleftrightarrow> ds = takeWhile isDigit s \<and> 3 \<le> length ds"
  by (auto simp: digits3_def Let_def)

lemma digits3_None: "digits3 s = None \<longleftrightarrow> length (takeWhile isDigit s) < 3"
  by (auto simp: digits3_def Let_def)

lemma takeWhile_digits_prefix:
  "\<forall>d\<in>set ds. isDigit d \<Longrightarrow> takeWhile isDigit (ds @ post) = ds @ takeWhile isDigit post"
  by (simp add: takeWhile_append2)

lemma not_digit_sep [simp]: "\<not> isDigit (CHR ''_'')" "\<not> isDigit (CHR ''-'')"
  by (simp_all add: isDigit_def)

lemma sepDigits_Some:
  "sepDigits s = Some ds \<longleftrightarrow>
     3 \<le> length ds \<and>
     (ds = takeWhile isDigit s \<or>
      (\<exists>c cs. s = c # cs \<and> (c = CHR ''_'' \<or> c = CHR ''-'') \<and> ds = takeWhile isDigit cs))"
  by (cases s) (auto simp: sepDigits_def digits3_Some digits3_None split: option.splits)

lemma sepDigits_sound:
  assumes "sepDigits s = Some ds"
  shows "\<exists>sep post. s = sep @ ds @ post \<and> (sep = [] \<or> sep = ''_'' \<or> sep = ''-'') \<and>
           3 \<le> length ds \<and> (\<forall>d\<in>set ds. isDigit d)"
proof -
  from assms have len: "3 \<le> length ds" and
    alt: "ds = takeWhile isDigit s \<or>
      (\<exists>c cs. s = c # cs \<and> (c = CHR ''_'' \<or> c = CHR ''-'') \<and> ds = takeWhile isDigit cs)"
    by (simp_all add: sepDigits_Some)
  from alt show ?thesis
  proof
    assume d: "ds = takeWhile isDigit s"
    have "s = [] @ ds @ dropWhile isDigit s" by (simp add: d)
    moreover have "\<forall>d\<in>set ds. isDigit d" using d by (auto dest: set_takeWhileD)
    ultimately show ?thesis using len by blast
  next
    assume "\<exists>c cs. s = c # cs \<and> (c = CHR ''_'' \<or> c = CHR ''-'') \<and> ds = takeWhile isDigit cs"
    then obtain c cs where s: "s = c # cs" and c: "c = CHR ''_'' \<or> c = CHR ''-''"
      and d: "ds = takeWhile isDigit cs" by blast
    have "s = [c] @ ds @ dropWhile isDigit cs" by (simp add: s d)
    moreover have "\<forall>d\<in>set ds. isDigit d" using d by (auto dest: set_takeWhileD)
    moreover have "[c] = ''_'' \<or> [c] = ''-''" using c by simp
    ultimately show ?thesis using len by blast
  qed
qed

lemma sepDigits_complete:
  assumes "s = sep @ ds' @ post" "sep = [] \<or> sep = ''_'' \<or> sep = ''-''"
    "3 \<le> length ds'" "\<forall>d\<in>set ds'. isDigit d"
  shows "\<exists>ds. sepDigits s = Some ds \<and> length ds' \<le> length ds"
proof -
  have tw: "takeWhile isDigit (ds' @ post) = ds' @ takeWhile isDigit post"
    using assms(4) by (rule takeWhile_digits_prefix)
  from assms(3) obtain d ds'' where ds': "ds' = d # ds''" by (cases ds') auto
  with assms(4) have dd: "isDigit d" by simp
  from assms(2) consider "sep = []" | "sep = ''_''" | "sep = ''-''" by blast
  then show ?thesis
  proof cases
    case 1
    then have s: "s = ds' @ post" using assms(1) by simp
    have "d \<noteq> CHR ''_''" "d \<noteq> CHR ''-''" using dd by auto
    then have "sepDigits s = digits3 s"
      by (simp add: sepDigits_def s ds')
    moreover have "digits3 s = Some (ds' @ takeWhile isDigit post)"
      using assms(3) by (simp add: digits3_Some s tw)
    ultimately show ?thesis by simp
  next
    case 2
    then have s: "s = CHR ''_'' # ds' @ post" using assms(1) by simp
    have "digits3 (ds' @ post) = Some (ds' @ takeWhile isDigit post)"
      using assms(3) by (simp add: digits3_Some tw)
    then have "sepDigits s = Some (ds' @ takeWhile isDigit post)"
      by (simp add: sepDigits_def s)
    then show ?thesis by simp
  next
    case 3
    then have s: "s = CHR ''-'' # ds' @ post" using assms(1) by simp
    have "digits3 (ds' @ post) = Some (ds' @ takeWhile isDigit post)"
      using assms(3) by (simp add: digits3_Some tw)
    then have "sepDigits s = Some (ds' @ takeWhile isDigit post)"
      by (simp add: sepDigits_def s)
    then show ?thesis by simp
  qed
qed

lemma kbMatchHere_sound:
  "kbMatchHere s = Some ds \<Longrightarrow> kbOccursAt s 0 ds"
  unfolding kbMatchHere_def kbOccursAt_def
  by (auto split: list.splits if_splits dest!: sepDigits_sound)

lemma kbMatchHere_complete:
  assumes "kbOccursAt s 0 ds'"
  shows "\<exists>ds. kbMatchHere s = Some ds \<and> length ds' \<le> length ds"
proof -
  from assms obtain k b sep post where
    s: "s = k # b # sep @ ds' @ post" and
    k: "k = CHR ''K'' \<or> k = CHR ''k''" and b: "b = CHR ''B'' \<or> b = CHR ''b''" and
    sep: "sep = [] \<or> sep = ''_'' \<or> sep = ''-''" and
    len: "3 \<le> length ds'" and dig: "\<forall>d\<in>set ds'. isDigit d"
    unfolding kbOccursAt_def by auto
  have "kbMatchHere s = sepDigits (sep @ ds' @ post)"
    using k b by (auto simp: kbMatchHere_def s)
  with sepDigits_complete [OF refl sep len dig, of post] show ?thesis by simp
qed

lemma kbOccursAt_Suc: "kbOccursAt (c # cs) (Suc i) ds \<longleftrightarrow> kbOccursAt cs i ds"
  by (simp add: kbOccursAt_def)

lemma kbOccursAt_Nil: "\<not> kbOccursAt [] i ds"
  by (simp add: kbOccursAt_def)

lemma kbMatch_None: "kbMatch s = None \<longleftrightarrow> \<not> kbOccurs s"
proof (induction s)
  case Nil
  show ?case by (simp add: kbMatchHere_def kbOccurs_def kbOccursAt_Nil)
next
  case (Cons c cs)
  show ?case
  proof (cases "kbMatchHere (c # cs)")
    case (Some ds)
    then have "kbOccursAt (c # cs) 0 ds" by (rule kbMatchHere_sound)
    then have "kbOccurs (c # cs)" unfolding kbOccurs_def by blast
    with Some show ?thesis by simp
  next
    case None
    have no0: "\<not> kbOccursAt (c # cs) 0 ds" for ds
      using kbMatchHere_complete [of "c # cs" ds] None by auto
    have "kbOccurs (c # cs) \<longleftrightarrow> kbOccurs cs"
    proof
      assume "kbOccurs (c # cs)"
      then obtain i ds where o: "kbOccursAt (c # cs) i ds" unfolding kbOccurs_def by blast
      with no0 obtain j where "i = Suc j" by (cases i) auto
      with o have "kbOccursAt cs j ds" by (simp add: kbOccursAt_Suc)
      then show "kbOccurs cs" unfolding kbOccurs_def by blast
    next
      assume "kbOccurs cs"
      then obtain i ds where "kbOccursAt cs i ds" unfolding kbOccurs_def by blast
      then have "kbOccursAt (c # cs) (Suc i) ds" by (simp add: kbOccursAt_Suc)
      then show "kbOccurs (c # cs)" unfolding kbOccurs_def by blast
    qed
    with None Cons.IH show ?thesis by simp
  qed
qed

lemma kbMatch_Some: "kbMatch s = Some ds \<Longrightarrow> firstDigitRun s ds"
proof (induction s)
  case Nil
  then show ?case by (simp add: kbMatchHere_def)
next
  case (Cons c cs)
  show ?case
  proof (cases "kbMatchHere (c # cs)")
    case (Some ds0)
    with Cons.prems have eq: "ds0 = ds" by simp
    have occ: "kbOccursAt (c # cs) 0 ds" using Some eq kbMatchHere_sound by blast
    have "length ds' \<le> length ds" if "kbOccursAt (c # cs) 0 ds'" for ds'
      using kbMatchHere_complete [OF that] Some eq by auto
    with occ show ?thesis unfolding firstDigitRun_def by (intro exI [of _ 0]) simp
  next
    case None
    have no0: "\<not> kbOccursAt (c # cs) 0 ds'" for ds'
      using kbMatchHere_complete [of "c # cs" ds'] None by auto
    from None Cons.prems have "kbMatch cs = Some ds" by simp
    then have "firstDigitRun cs ds" by (rule Cons.IH)
    then obtain i where i: "kbOccursAt cs i ds"
      "\<forall>j<i. \<forall>ds'. \<not> kbOccursAt cs j ds'"
      "\<forall>ds'. kbOccursAt cs i ds' \<longrightarrow> length ds' \<le> length ds"
      unfolding firstDigitRun_def by blast
    have "\<not> kbOccursAt (c # cs) j ds'" if "j < Suc i" for j ds'
    proof (cases j)
      case 0
      then show ?thesis using no0 by simp
    next
      case (Suc j')
      then show ?thesis using that i(2) by (simp add: kbOccursAt_Suc)
    qed
    then show ?thesis unfolding firstDigitRun_def
      using i(1) i(3) by (intro exI [of _ "Suc i"]) (simp add: kbOccursAt_Suc)
  qed
qed

lemma kbOccursAt_same_length:
  assumes "kbOccursAt s i ds" "kbOccursAt s i ds'" "length ds = length ds'"
  shows "ds = ds'"
proof -
  from assms(1) obtain k b sep post where
    1: "drop i s = k # b # sep @ ds @ post" "sep = [] \<or> sep = ''_'' \<or> sep = ''-''"
       "3 \<le> length ds" "\<forall>d\<in>set ds. isDigit d"
    unfolding kbOccursAt_def by blast
  from assms(2) obtain k' b' sep' post' where
    2: "drop i s = k' # b' # sep' @ ds' @ post'" "sep' = [] \<or> sep' = ''_'' \<or> sep' = ''-''"
       "3 \<le> length ds'" "\<forall>d\<in>set ds'. isDigit d"
    unfolding kbOccursAt_def by blast
  from 1(3) obtain d r where ds: "ds = d # r" by (cases ds) auto
  from 2(3) obtain d' r' where ds': "ds' = d' # r'" by (cases ds') auto
  have dd: "isDigit d" "isDigit d'" using 1(4) 2(4) ds ds' by simp_all
  then have nd: "d \<noteq> CHR ''_''" "d \<noteq> CHR ''-''" "d' \<noteq> CHR ''_''" "d' \<noteq> CHR ''-''"
    by auto
  from 1(1) 2(1) have eq: "sep @ ds @ post = sep' @ ds' @ post'" by simp
  have "sep = sep'"
    using 1(2) 2(2) eq nd by (auto simp: ds ds')
  with eq have "ds @ post = ds' @ post'" by simp
  with assms(3) show ?thesis by simp
qed

lemma firstDigitRun_kbMatch:
  assumes "firstDigitRun s ds"
  shows "kbMatch s = Some ds"
proof -
  from assms obtain i where i: "kbOccursAt s i ds"
    "\<forall>j<i. \<forall>ds'. \<not> kbOccursAt s j ds'"
    "\<forall>ds'. kbOccursAt s i ds' \<longrightarrow> length ds' \<le> length ds"
    unfolding firstDigitRun_def by blast
  from i(1) have "kbOccurs s" unfolding kbOccurs_def by blast
  then obtain m where m: "kbMatch s = Some m" using kbMatch_None [of s] by (cases "kbMatch s") auto
  then have "firstDigitRun s m" by (rule kbMatch_Some)
  then obtain i' where i': "kbOccursAt s i' m"
    "\<forall>j<i'. \<forall>ds'. \<not> kbOccursAt s j ds'"
    "\<forall>ds'. kbOccursAt s i' ds' \<longrightarrow> length ds' \<le> length m"
    unfolding firstDigitRun_def by blast
  have "i = i'"
  proof (rule ccontr)
    assume "i \<noteq> i'"
    then consider "i < i'" | "i' < i" by linarith
    then show False using i(1) i(2) i'(1) i'(2) by cases blast+
  qed
  with i i' have "length ds = length m" by (simp add: le_antisym)
  with i(1) i'(1) \<open>i = i'\<close> have "ds = m" by (auto intro: kbOccursAt_same_length)
  with m show ?thesis by simp
qed

lemma kbMatch_iff: "kbMatch s = Some ds \<longleftrightarrow> firstDigitRun s ds"
  using kbMatch_Some firstDigitRun_kbMatch by blast


lemma stripZeros_spec: "stripZeros ds = specStrip ds"
  by (auto simp: stripZeros_def specStrip_def Let_def dropWhile_eq_Nil_conv)

lemma padStart_spec: "padStart 9 (CHR ''0'') r = specPad9 r"
  by (simp add: padStart_def specPad9_def)

lemma extractKbDigits_JStr:
  "extractKbDigits (JStr s) =
     (case kbMatch s of None \<Rightarrow> None | Some m1 \<Rightarrow> Some (specPad9 (specStrip m1)))"
proof (cases s)
  case Nil
  then show ?thesis by (simp add: extractKbDigits_def kbMatchHere_def)
next
  case (Cons c cs)
  then have "extractKbDigits (JStr s) =
     (case kbMatch s of None \<Rightarrow> None | Some m1 \<Rightarrow> Some (padStart 9 (CHR ''0'') (stripZeros m1)))"
    by (simp add: extractKbDigits_def del: kbMatch.simps)
  then show ?thesis
    by (cases "kbMatch s") (simp_all add: stripZeros_spec padStart_spec)
qed

lemma extractKbDigits_not_string: "\<forall>s. v \<noteq> JStr s \<Longrightarrow> extractKbDigits v = None"
  by (cases v) (simp_all add: extractKbDigits_def)

lemma kbOccurs_firstDigitRun: "kbOccurs s \<Longrightarrow> \<exists>ds. firstDigitRun s ds"
  using kbMatch_None [of s] kbMatch_Some [of s] by (cases "kbMatch s") auto

lemma firstDigitRun_kbOccurs: "firstDigitRun s ds \<Longrightarrow> kbOccurs s"
  unfolding firstDigitRun_def kbOccurs_def by blast

lemma firstDigitRun_digits: "firstDigitRun s ds \<Longrightarrow> (\<forall>d\<in>set ds. isDigit d) \<and> 3 \<le> length ds"
  unfolding firstDigitRun_def kbOccursAt_def by blast

lemma specStrip_digits: "\<forall>d\<in>set ds. isDigit d \<Longrightarrow> \<forall>d\<in>set (specStrip ds). isDigit d"
  by (auto simp: specStrip_def dest: set_dropWhileD)

lemma specPad9_digits: "\<forall>d\<in>set r. isDigit d \<Longrightarrow> \<forall>d\<in>set (specPad9 r). isDigit d"
  by (auto simp: specPad9_def isDigit_def)

lemma length_specPad9: "length (specPad9 r) = max 9 (length r)"
  by (simp add: specPad9_def)

lemma kbMatch_example: "kbMatch ''KB_000123456.pdf'' = Some ''000123456''"
  by code_simp

section \<open>Claims about extractKbDigits\<close>

text \<open>
  C1. In every string where the pattern occurs there is a first matched digit run, and
  for that run \<open>extractKbDigits\<close> returns it with its leading zeros stripped (the run
  itself when it is all zeros), padded on the left with zeros to 9 characters and not
  truncated when it is longer; \<open>extractKbDigits "KB0000000" = "000000000"\<close>.
\<close>
theorem extractKbDigits_normalises_first_run:
  "(kbOccurs name \<longrightarrow> (\<exists>ds. firstDigitRun name ds)) \<and>
   (\<forall>ds. firstDigitRun name ds \<longrightarrow> extractKbDigits (JStr name) = Some (specPad9 (specStrip ds))) \<and>
   extractKbDigits (JStr ''KB0000000'') = Some ''000000000''"
proof (intro conjI allI impI)
  assume "kbOccurs name"
  then show "\<exists>ds. firstDigitRun name ds" by (rule kbOccurs_firstDigitRun)
next
  fix ds assume "firstDigitRun name ds"
  then have "kbMatch name = Some ds" by (rule firstDigitRun_kbMatch)
  then show "extractKbDigits (JStr name) = Some (specPad9 (specStrip ds))"
    by (simp add: extractKbDigits_JStr)
next
  show "extractKbDigits (JStr ''KB0000000'') = Some ''000000000''" by code_simp
qed

theorem extractKbDigits_normalises_first_run_witness:
  "kbOccurs ''KB_000123456.pdf'' \<and> firstDigitRun ''KB_000123456.pdf'' ''000123456'' \<and>
   extractKbDigits (JStr ''KB_000123456.pdf'') = Some ''000123456''"
proof -
  have f: "firstDigitRun ''KB_000123456.pdf'' ''000123456''"
    using kbMatch_example by (rule kbMatch_Some)
  have o: "kbOccurs ''KB_000123456.pdf''" using f by (rule firstDigitRun_kbOccurs)
  have n: "specPad9 (specStrip ''000123456'') = ''000123456''" by code_simp
  from extractKbDigits_normalises_first_run [of "''KB_000123456.pdf''"] f o n
  show ?thesis by auto
qed

text \<open>
  C4. \<open>extractKbDigits\<close> returns null exactly when its argument is the empty string, is
  not a string, or is a string with no occurrence of the pattern; a non-null result
  comes from the first match; \<open>"kb-42.txt"\<close> and \<open>"no id here"\<close> give null.
\<close>
theorem extractKbDigits_null_iff:
  "(extractKbDigits v = None \<longleftrightarrow>
      v = JStr [] \<or> (\<forall>s. v \<noteq> JStr s) \<or> (\<exists>s. v = JStr s \<and> \<not> kbOccurs s)) \<and>
   (\<forall>s r. v = JStr s \<and> extractKbDigits v = Some r \<longrightarrow>
      (\<exists>ds. firstDigitRun s ds \<and> r = padStart 9 (CHR ''0'') (stripZeros ds))) \<and>
   extractKbDigits (JStr ''kb-42.txt'') = None \<and>
   extractKbDigits (JStr ''no id here'') = None"
proof (intro conjI allI impI)
  show "extractKbDigits v = None \<longleftrightarrow>
      v = JStr [] \<or> (\<forall>s. v \<noteq> JStr s) \<or> (\<exists>s. v = JStr s \<and> \<not> kbOccurs s)"
  proof (cases "\<exists>s. v = JStr s")
    case True
    then obtain s where v: "v = JStr s" by blast
    have "\<not> kbOccurs []" by (simp add: kbOccurs_def kbOccursAt_Nil)
    then show ?thesis
      by (auto simp: v extractKbDigits_JStr kbMatch_None [symmetric] split: option.splits)
  next
    case False
    then show ?thesis by (simp add: extractKbDigits_not_string)
  qed
next
  fix s r assume "v = JStr s \<and> extractKbDigits v = Some r"
  then obtain ds where "kbMatch s = Some ds" "r = specPad9 (specStrip ds)"
    by (auto simp: extractKbDigits_JStr split: option.splits)
  then show "\<exists>ds. firstDigitRun s ds \<and> r = padStart 9 (CHR ''0'') (stripZeros ds)"
    by (auto simp: stripZeros_spec padStart_spec dest: kbMatch_Some)
next
  show "extractKbDigits (JStr ''kb-42.txt'') = None" by code_simp
next
  show "extractKbDigits (JStr ''no id here'') = None" by code_simp
qed

theorem extractKbDigits_null_iff_witness:
  "extractKbDigits (JStr ''kb-42.txt'') = None \<and> \<not> kbOccurs ''kb-42.txt'' \<and>
   extractKbDigits (JNum (Finite 7)) = None \<and>
   extractKbDigits (JStr ''KB_000123456.pdf'') = Some ''000123456'' \<and>
   firstDigitRun ''KB_000123456.pdf'' ''000123456''"
proof -
  have a: "extractKbDigits (JStr ''kb-42.txt'') = None" by code_simp
  have b: "\<forall>s. JNum (Finite 7) \<noteq> JStr s" by simp
  have c: "extractKbDigits (JStr ''KB_000123456.pdf'') = Some ''000123456''" by code_simp
  have d: "firstDigitRun ''KB_000123456.pdf'' ''000123456''"
    using kbMatch_example by (rule kbMatch_Some)
  from extractKbDigits_null_iff [of "JStr ''kb-42.txt''"] a
  have "\<not> kbOccurs ''kb-42.txt''" by simp
  moreover from extractKbDigits_null_iff [of "JNum (Finite 7)"] b
  have "extractKbDigits (JNum (Finite 7)) = None" by blast
  ultimately show ?thesis using a c d by simp
qed

text \<open>
  C8. A non-null result of \<open>extractKbDigits\<close> consists of decimal digits only, and its
  length is the maximum of 9 and the length of the first matched digit run after
  leading-zero stripping, so at least 9.
\<close>
theorem extractKbDigits_result_shape:
  assumes "extractKbDigits v = Some r"
  shows "(\<forall>c\<in>set r. isDigit c) \<and> 9 \<le> length r \<and>
         (\<exists>s ds. v = JStr s \<and> firstDigitRun s ds \<and> length r = max 9 (length (specStrip ds)))"
proof -
  from assms obtain s where v: "v = JStr s"
    using extractKbDigits_not_string [of v] by fastforce
  with assms obtain ds where m: "kbMatch s = Some ds" and r: "r = specPad9 (specStrip ds)"
    by (auto simp: extractKbDigits_JStr split: option.splits)
  from m have f: "firstDigitRun s ds" by (rule kbMatch_Some)
  then have "\<forall>d\<in>set ds. isDigit d" by (simp add: firstDigitRun_digits)
  then have "\<forall>c\<in>set r. isDigit c" unfolding r by (intro specPad9_digits specStrip_digits)
  moreover have "length r = max 9 (length (specStrip ds))" unfolding r by (rule length_specPad9)
  ultimately show ?thesis using v f by auto
qed

theorem extractKbDigits_result_shape_witness:
  "extractKbDigits (JStr ''xKb-0012345678901'') = Some ''12345678901'' \<and>
   list_all isDigit ''12345678901'' \<and> 9 \<le> length ''12345678901'' \<and>
   firstDigitRun ''xKb-0012345678901'' ''0012345678901''"
proof -
  have e: "extractKbDigits (JStr ''xKb-0012345678901'') = Some ''12345678901''" by code_simp
  have "kbMatch ''xKb-0012345678901'' = Some ''0012345678901''" by code_simp
  then have f: "firstDigitRun ''xKb-0012345678901'' ''0012345678901''" by (rule kbMatch_Some)
  from extractKbDigits_result_shape [OF e] e f show ?thesis
    unfolding list_all_iff by blast
qed


section \<open>Claims about escapeHtml and the display name\<close>

lemma replaceAll_Nil [simp]: "replaceAll c r [] = []"
  by (simp add: replaceAll_def)

lemma replaceAll_Cons: "replaceAll c r (x # xs) = (if x = c then r else [x]) @ replaceAll c r xs"
  by (simp add: replaceAll_def)

lemma replaceAll_append: "replaceAll c r (xs @ ys) = replaceAll c r xs @ replaceAll c r ys"
  by (simp add: replaceAll_def)

lemma escape_passes:
  "replaceAll (CHR 0x27) ''&#039;''
     (replaceAll (CHR 0x22) ''&quot;''
       (replaceAll (CHR ''>'') ''&gt;''
         (replaceAll (CHR ''<'') ''&lt;''
           (replaceAll (CHR ''&'') ''&amp;'' s)))) = concat (map htmlEntity s)"
proof (induction s)
  case Nil
  show ?case by simp
next
  case (Cons x xs)
  show ?case
    unfolding replaceAll_Cons [of _ _ x xs]
    by (simp add: replaceAll_append replaceAll_Cons htmlEntity_def Cons.IH)
qed

lemma escapeHtml_JStr: "escapeHtml (JStr s) = concat (map htmlEntity s)"
  by (simp add: escapeHtml_def escape_passes)

lemma htmlEntity_safe:
  "set (htmlEntity c) \<inter> {CHR ''<'', CHR ''>'', CHR 0x22, CHR 0x27} = {}"
  by (simp add: htmlEntity_def)

text \<open>
  C10. For a string, the output of \<open>escapeHtml\<close> contains none of \<open><\<close>, \<open>>\<close>, the
  double quote and the single quote, and it is the input with each special character
  replaced once by its entity (the ampersands of the entities are not escaped again);
  for anything that is not a string the output is empty.
\<close>
theorem escapeHtml_removes_markup:
  "set (escapeHtml (JStr s)) \<inter> {CHR ''<'', CHR ''>'', CHR 0x22, CHR 0x27} = {} \<and>
   escapeHtml (JStr s) = concat (map htmlEntity s) \<and>
   ((\<forall>t. v \<noteq> JStr t) \<longrightarrow> escapeHtml v = [])"
proof (intro conjI impI)
  show "escapeHtml (JStr s) = concat (map htmlEntity s)" by (rule escapeHtml_JStr)
  then show "set (escapeHtml (JStr s)) \<inter> {CHR ''<'', CHR ''>'', CHR 0x22, CHR 0x27} = {}"
    using htmlEntity_safe by auto
next
  assume "\<forall>t. v \<noteq> JStr t"
  then show "escapeHtml v = []" by (cases v) (simp_all add: escapeHtml_def)
qed

theorem escapeHtml_removes_markup_witness:
  "escapeHtml (JStr ''a<b>&amp;'') = ''a&lt;b&gt;&amp;amp;'' \<and> escapeHtml (JNum (Finite 42)) = []"
proof -
  have n: "\<forall>t. JNum (Finite 42) \<noteq> JStr t" by simp
  have c: "concat (map htmlEntity ''a<b>&amp;'') = ''a&lt;b&gt;&amp;amp;''"
    by (simp add: htmlEntity_def)
  from escapeHtml_removes_markup [of "''a<b>&amp;''" "JNum (Finite 42)"] n c
  show ?thesis by simp
qed

lemma jsOr_simps [simp]:
  "truthy a \<Longrightarrow> jsOr a b = Inr a" "\<not> truthy a \<Longrightarrow> jsOr a b = b"
  by (simp_all add: jsOr_def)

lemma andThen_simps [simp]: "andThen (Inr v) f = f v" "andThen (Inl e) f = Inl e"
  by (simp_all add: andThen_def)

lemma resolveName_JObj: "resolveName (JObj kvs) = Inr (truthyDisplayName kvs)"
  by (auto simp: resolveName_def truthyDisplayName_def nameKeys_def jsOr_def
           split: option.splits)

lemma resolveName_not_object: "\<forall>kvs. s \<noteq> JObj kvs \<Longrightarrow> resolveName s = Inr (JStr [])"
  by (cases s) (auto simp: resolveName_def jsOr_def)

lemma resolveName_total: "\<exists>v. resolveName s = Inr v"
  by (cases "\<exists>kvs. s = JObj kvs") (auto simp: resolveName_JObj resolveName_not_object)

text \<open>
  C3, as stated, fails: with an empty \<open>source\<close> and a \<open>title\<close>, the title is taken.
\<close>
theorem resolveName_first_present_counterexample:
  "resolveName (JObj [(''source'', JStr []), (''title'', JStr ''T'')])
     \<noteq> Inr (specDisplayName [(''source'', JStr []), (''title'', JStr ''T'')])"
  by (simp add: resolveName_JObj truthyDisplayName_def specDisplayName_def nameKeys_def)

text \<open>
  C3, amended. The display name of a record is the content of the first of \<open>source\<close>,
  \<open>title\<close>, \<open>file\<close>, \<open>filename\<close> that is truthy, and the empty string when none is;
  anything that is not an object gets the empty string.
\<close>

theorem resolveName_first_truthy:
  "resolveName (JObj kvs) = Inr (truthyDisplayName kvs) \<and>
   ((\<forall>kvs. s \<noteq> JObj kvs) \<longrightarrow> resolveName s = Inr (JStr []))"
  by (simp add: resolveName_JObj resolveName_not_object)

theorem resolveName_first_truthy_witness:
  "resolveName (JObj [(''source'', JStr []), (''title'', JStr ''T''), (''file'', JStr ''F'')])
     = Inr (JStr ''T'') \<and>
   resolveName (JObj [(''chunk'', JNum (Finite 3))]) = Inr (JStr []) \<and>
   resolveName JNull = Inr (JStr [])"
proof -
  have a: "truthyDisplayName [(''source'', JStr []), (''title'', JStr ''T''), (''file'', JStr ''F'')]
             = JStr ''T''"
    by (simp add: truthyDisplayName_def nameKeys_def)
  have b: "truthyDisplayName [(''chunk'', JNum (Finite 3))] = JStr []"
    by (simp add: truthyDisplayName_def nameKeys_def)
  have c: "\<forall>kvs. JNull \<noteq> JObj kvs" by simp
  from resolveName_first_truthy
         [of "[(''source'', JStr []), (''title'', JStr ''T''), (''file'', JStr ''F'')]" JNull]
       resolveName_first_truthy [of "[(''chunk'', JNum (Finite 3))]" JNull] a b c
  show ?thesis by simp
qed

section \<open>The dedupe loop and the per-name links\<close>

lemma digit_unreserved: "isDigit c \<Longrightarrow> uriUnreserved c"
  by (auto simp: isDigit_def uriUnreserved_def)

lemma digit_not_ED: "isDigit c \<Longrightarrow> c \<noteq> CHR 0xED"
  by (auto simp: isDigit_def)

lemma loneSurrogate_digits: "\<forall>c\<in>set s. isDigit c \<Longrightarrow> \<not> loneSurrogate s"
  by (induction s rule: loneSurrogate.induct) (auto dest: digit_not_ED)

lemma encode_digits_id:
  "\<forall>c\<in>set s. isDigit c \<Longrightarrow> concat (map (\<lambda>c. if uriUnreserved c then [c] else percentEncode c) s) = s"
  by (induction s) (auto dest: digit_unreserved)

lemma encodeURIComponent_digits: "\<forall>c\<in>set s. isDigit c \<Longrightarrow> encodeURIComponent s = Inr s"
  by (simp add: encodeURIComponent_def loneSurrogate_digits encode_digits_id)

lemma extractKbDigits_Some_digits:
  assumes "extractKbDigits v = Some k" shows "(\<forall>c\<in>set k. isDigit c) \<and> k \<noteq> []"
proof -
  from assms obtain s where v: "v = JStr s"
    using extractKbDigits_not_string [of v] by fastforce
  with assms obtain ds where m: "kbMatch s = Some ds" and k: "k = specPad9 (specStrip ds)"
    by (auto simp: extractKbDigits_JStr split: option.splits)
  from m have "\<forall>d\<in>set ds. isDigit d" using kbMatch_Some firstDigitRun_digits by blast
  then have "\<forall>c\<in>set k. isDigit c" unfolding k by (intro specPad9_digits specStrip_digits)
  moreover have "9 \<le> length k" unfolding k by (simp add: length_specPad9)
  ultimately show ?thesis by auto
qed

lemma sourceItem_None: "extractKbDigits name = None \<Longrightarrow> sourceItem name = Inr (plainItem name)"
  by (simp add: sourceItem_def)

lemma sourceItem_Some:
  assumes "extractKbDigits name = Some k"
  shows "sourceItem name =
     Inr \<lparr>nm = name, padded = Some k, externalUrl = Some (viewPrefix @ k),
          downloadUrl = Some (downloadPrefix @ k),
          html = kbItemHtml (viewPrefix @ k) (downloadPrefix @ k)
                   (escapeHtml (if truthy name then name else JStr ''KB Article''))\<rparr>"
proof -
  from extractKbDigits_Some_digits [OF assms]
  have "encodeURIComponent k = Inr k" "k \<noteq> []"
    by (simp_all add: encodeURIComponent_digits)
  with assms show ?thesis
    by (simp add: sourceItem_def viewPrefix_def downloadPrefix_def Let_def)
qed

lemma sourceItem_total: "\<exists>it. sourceItem name = Inr it"
  by (cases "extractKbDigits name") (simp_all add: sourceItem_None sourceItem_Some)

lemma sourceItem_fields:
  assumes "sourceItem name = Inr it"
  shows "nm it = name \<and> padded it = extractKbDigits name \<and>
         (case padded it of
            None \<Rightarrow> externalUrl it = None \<and> downloadUrl it = None
          | Some k \<Rightarrow> encodeURIComponent k = Inr k \<and>
                      externalUrl it = Some (viewPrefix @ k) \<and>
                      downloadUrl it = Some (downloadPrefix @ k))"
proof (cases "extractKbDigits name")
  case None
  with assms show ?thesis by (auto simp: sourceItem_None plainItem_def)
next
  case (Some k)
  from extractKbDigits_Some_digits [OF Some] have "encodeURIComponent k = Inr k"
    by (simp add: encodeURIComponent_digits)
  with assms Some show ?thesis by (auto simp: sourceItem_Some)
qed

lemma sourceItems_total:
  "\<exists>items. sourceItems names = Inr items \<and> map nm items = names \<and>
           (\<forall>it\<in>set items. sourceItem (nm it) = Inr it)"
proof (induction names)
  case Nil
  show ?case by simp
next
  case (Cons n ns)
  from sourceItem_total obtain it where it: "sourceItem n = Inr it" by blast
  then have "nm it = n" by (simp add: sourceItem_fields)
  with Cons.IH it show ?case by auto
qed

lemma collectNames_keepFirst:
  "map resolveName rs = map Inr raws \<Longrightarrow>
   collectNames rs (acc, acc) = Inr (keepFirst acc raws, keepFirst acc raws)"
proof (induction rs arbitrary: acc raws)
  case Nil
  then show ?case by simp
next
  case (Cons r rs)
  then obtain x xs where raws: "raws = x # xs" and r: "resolveName r = Inr x"
    and rest: "map resolveName rs = map Inr xs" by (cases raws) auto
  show ?case using Cons.IH [OF rest] by (simp add: raws r)
qed

lemma setHas_snoc: "setHas (acc @ [x]) y \<longleftrightarrow> setHas acc y \<or> sameValueZero x y"
  by (auto simp: setHas_def)

lemma keepFirst_firstOccurrences:
  "keepFirst acc xs = acc @ firstOccurrences (filter (\<lambda>y. \<not> setHas acc y) xs)"
proof (induction xs arbitrary: acc)
  case Nil
  show ?case by simp
next
  case (Cons x xs)
  show ?case
  proof (cases "setHas acc x")
    case True
    then show ?thesis by (simp add: Cons.IH)
  next
    case False
    have "filter (\<lambda>y. \<not> setHas (acc @ [x]) y) xs
            = filter (\<lambda>y. \<not> sameValueZero x y) (filter (\<lambda>y. \<not> setHas acc y) xs)"
      by (auto simp: setHas_snoc intro: filter_cong)
    with False show ?thesis by (simp add: Cons.IH)
  qed
qed

lemma setHas_Nil [simp]: "\<not> setHas [] y"
  by (simp add: setHas_def)

lemma resolved_names: "\<exists>raws. map resolveName rs = map Inr raws"
proof (induction rs)
  case Nil
  show ?case by simp
next
  case (Cons r rs)
  then obtain raws where "map resolveName rs = map Inr raws" by blast
  moreover from resolveName_total obtain v where "resolveName r = Inr v" by blast
  ultimately have "map resolveName (r # rs) = map Inr (v # raws)" by simp
  then show ?case by blast
qed

lemma set_firstOccurrences: "set (firstOccurrences xs) \<subseteq> set xs"
  by (induction xs rule: firstOccurrences.induct) auto

lemma length_firstOccurrences: "length (firstOccurrences xs) \<le> length xs"
proof (induction xs rule: firstOccurrences.induct)
  case 1
  show ?case by simp
next
  case (2 x xs)
  have "length (filter (\<lambda>y. \<not> sameValueZero x y) xs) \<le> length xs" by simp
  with 2 show ?case by (simp del: length_filter_le)
qed

lemma firstOccurrences_pairwise:
  "sorted_wrt (\<lambda>a b. \<not> sameValueZero a b) (firstOccurrences xs)"
proof (induction xs rule: firstOccurrences.induct)
  case 1
  show ?case by simp
next
  case (2 x xs)
  have "\<not> sameValueZero x y"
    if "y \<in> set (firstOccurrences (filter (\<lambda>y. \<not> sameValueZero x y) xs))" for y
  proof -
    from that set_firstOccurrences have "y \<in> set (filter (\<lambda>y. \<not> sameValueZero x y) xs)"
      by blast
    then show ?thesis by simp
  qed
  with 2 show ?case unfolding firstOccurrences.simps sorted_wrt.simps by blast
qed

lemma sameValueZero_primitive: "isPrimitive a \<Longrightarrow> sameValueZero a b \<longleftrightarrow> a = b"
  by (cases a; cases b) (simp_all add: isPrimitive_def)

lemma firstOccurrences_distinct:
  "\<forall>x\<in>set xs. isPrimitive x \<Longrightarrow> distinct (firstOccurrences xs)"
proof (induction xs rule: firstOccurrences.induct)
  case 1
  show ?case by simp
next
  case (2 x xs)
  from "2.prems" have px: "isPrimitive x" and pxs: "\<forall>y\<in>set xs. isPrimitive y" by simp_all
  have "x \<notin> set (firstOccurrences (filter (\<lambda>y. \<not> sameValueZero x y) xs))"
  proof
    assume "x \<in> set (firstOccurrences (filter (\<lambda>y. \<not> sameValueZero x y) xs))"
    with set_firstOccurrences have "x \<in> set (filter (\<lambda>y. \<not> sameValueZero x y) xs)"
      by blast
    then have "\<not> sameValueZero x x" by simp
    with px show False by (simp add: sameValueZero_primitive)
  qed
  moreover have "distinct (firstOccurrences (filter (\<lambda>y. \<not> sameValueZero x y) xs))"
    using pxs by (intro "2.IH") simp
  ultimately show ?case by simp
qed

lemma annotate_names:
  assumes "map resolveName rs = map Inr raws"
  shows "\<exists>items. annotate rs = Inr items \<and> map nm items = firstOccurrences raws \<and>
           (\<forall>it\<in>set items. sourceItem (nm it) = Inr it)"
proof -
  have "collectNames rs ([], []) = Inr (firstOccurrences raws, firstOccurrences raws)"
    using collectNames_keepFirst [OF assms, of "[]"] by (simp add: keepFirst_firstOccurrences)
  with sourceItems_total [of "firstOccurrences raws"] show ?thesis
    by (auto simp: annotate_def)
qed

lemma annotate_total:
  "\<exists>raws items. map resolveName records = map Inr raws \<and> annotate records = Inr items \<and>
      map nm items = firstOccurrences raws \<and> length items \<le> length records \<and>
      (\<forall>it\<in>set items. sourceItem (nm it) = Inr it)"
proof -
  from resolved_names obtain raws where raws: "map resolveName records = map Inr raws" by blast
  from annotate_names [OF raws] obtain items where
    items: "annotate records = Inr items" "map nm items = firstOccurrences raws"
      "\<forall>it\<in>set items. sourceItem (nm it) = Inr it" by blast
  have "length raws = length records" using raws by (metis length_map)
  moreover have "length items = length (firstOccurrences raws)" using items(2) by (metis length_map)
  ultimately have "length items \<le> length records"
    using length_firstOccurrences [of raws] by simp
  with raws items show ?thesis by blast
qed

text \<open>
  C2. \<open>annotate\<close> returns, for every input sequence, one entry per resolved display
  name, in first-occurrence order; the output is no longer than the input; no two
  entries have the same display name (by the Set's comparison, which for strings and
  the other primitives is equality), whatever the other fields of the records are.
\<close>
theorem annotate_dedupes_by_display_name:
  "\<exists>raws items.
     map resolveName records = map Inr raws \<and> annotate records = Inr items \<and>
     map nm items = firstOccurrences raws \<and>
     length items \<le> length records \<and>
     (\<forall>i j. i < j \<and> j < length items \<longrightarrow> \<not> sameValueZero (nm (items ! i)) (nm (items ! j))) \<and>
     ((\<forall>x\<in>set raws. isPrimitive x) \<longrightarrow> distinct (map nm items))"
proof -
  from annotate_total obtain raws items where
    r: "map resolveName records = map Inr raws" "annotate records = Inr items"
       "map nm items = firstOccurrences raws" "length items \<le> length records" by blast
  have len: "length (firstOccurrences raws) = length items" using r(3) by (metis length_map)
  have "\<not> sameValueZero (nm (items ! i)) (nm (items ! j))" if "i < j" "j < length items" for i j
  proof -
    from that len have j: "j < length (firstOccurrences raws)" by simp
    with that have "\<not> sameValueZero (firstOccurrences raws ! i) (firstOccurrences raws ! j)"
      using firstOccurrences_pairwise [of raws] by (simp add: sorted_wrt_iff_nth_less)
    moreover have "firstOccurrences raws ! i = nm (items ! i)" "firstOccurrences raws ! j = nm (items ! j)"
      using that r(3) [symmetric] by simp_all
    ultimately show ?thesis by simp
  qed
  moreover have "distinct (map nm items)" if "\<forall>x\<in>set raws. isPrimitive x"
    using firstOccurrences_distinct [OF that] r(3) by simp
  ultimately show ?thesis using r by blast
qed

theorem annotate_dedupes_by_display_name_witness:
  "\<exists>items. annotate [JObj [(''source'', JStr ''A'')],
                         JObj [(''title'', JStr ''A''), (''page'', JNum (Finite 7))],
                         JObj [(''file'', JStr ''B'')]] = Inr items \<and>
           map nm items = [JStr ''A'', JStr ''B'']"
proof -
  let ?rs = "[JObj [(''source'', JStr ''A'')],
              JObj [(''title'', JStr ''A''), (''page'', JNum (Finite 7))],
              JObj [(''file'', JStr ''B'')]]"
  have rn: "map resolveName ?rs = map Inr [JStr ''A'', JStr ''A'', JStr ''B'']"
    by (simp add: resolveName_JObj truthyDisplayName_def nameKeys_def)
  from annotate_dedupes_by_display_name [of ?rs] obtain raws items where
    r: "map resolveName ?rs = map Inr raws" "annotate ?rs = Inr items"
       "map nm items = firstOccurrences raws" by blast
  from r(1) rn have "map Inr raws = (map Inr [JStr ''A'', JStr ''A'', JStr ''B''] :: (js_error + jsval) list)"
    by simp
  then have "raws = [JStr ''A'', JStr ''A'', JStr ''B'']"
    by (auto simp: map_eq_Cons_conv)
  then have "firstOccurrences raws = [JStr ''A'', JStr ''B'']" by simp
  with r show ?thesis by simp
qed

text \<open>
  C5. For every entry of the output of \<open>annotate\<close>: the view URL and the download URL
  are both null when the KB id is null; otherwise they are the two templates followed by
  the URL-encoded KB id, which is the KB id itself.
\<close>
theorem annotate_links:
  assumes "annotate records = Inr items" "it \<in> set items"
  shows "padded it = extractKbDigits (nm it) \<and>
         (case padded it of
            None \<Rightarrow> externalUrl it = None \<and> downloadUrl it = None
          | Some k \<Rightarrow>
              (\<exists>e. encodeURIComponent k = Inr e \<and> e = k \<and>
                   externalUrl it = Some (viewPrefix @ e) \<and>
                   downloadUrl it = Some (downloadPrefix @ e)))"
proof -
  from annotate_total [of records] assms have "sourceItem (nm it) = Inr it" by auto
  from sourceItem_fields [OF this] show ?thesis by (auto split: option.splits)
qed

theorem annotate_links_witness:
  "\<exists>items. annotate [JObj [(''source'', JStr ''KB_000123456.pdf'')]] = Inr items \<and>
      map padded items = [Some ''000123456''] \<and>
      map externalUrl items =
        [Some ''https://resource.digital.thermofisher.com/kb/article.aspx?n=000123456''] \<and>
      map downloadUrl items = [Some ''/download_kb?kb=000123456'']"
proof -
  let ?rs = "[JObj [(''source'', JStr ''KB_000123456.pdf'')]]"
  have rn: "map resolveName ?rs = map Inr [JStr ''KB_000123456.pdf'']"
    by (simp add: resolveName_JObj truthyDisplayName_def nameKeys_def)
  from annotate_names [OF rn] obtain items where
    a: "annotate ?rs = Inr items" and n: "map nm items = [JStr ''KB_000123456.pdf'']"
    by auto
  from n obtain it where items: "items = [it]" and nm: "nm it = JStr ''KB_000123456.pdf''"
    by auto
  have e: "extractKbDigits (JStr ''KB_000123456.pdf'') = Some ''000123456''" by code_simp
  from annotate_links [OF a, of it] items nm e
  have "padded it = Some ''000123456'' \<and>
        externalUrl it = Some (viewPrefix @ ''000123456'') \<and>
        downloadUrl it = Some (downloadPrefix @ ''000123456'')"
    by auto
  with a items show ?thesis by (simp add: viewPrefix_def downloadPrefix_def)
qed

lemma buildMeta_total: "\<exists>h. buildMeta v = Inr h"
proof (cases v)
  case (JArr records)
  from annotate_total [of records] obtain items where "annotate records = Inr items" by blast
  with JArr show ?thesis by (simp add: buildMeta_def)
qed (simp_all add: buildMeta_def)

text \<open>
  C6, as stated, fails: a record whose only name field holds the number 42 does not get
  the empty-string display name.
\<close>
theorem annotate_nonstring_name_counterexample:
  "noNameField [(''source'', JNum (Finite 42))] \<and>
   resolveName (JObj [(''source'', JNum (Finite 42))]) \<noteq> Inr (JStr [])"
  by (simp add: noNameField_def nameKeys_def resolveName_JObj truthyDisplayName_def)

text \<open>
  C6, amended. \<open>annotate\<close> and the markup built from it return normally on every input.
  A record that is not an object, or none of whose four name fields is truthy, gets the
  empty-string display name. Otherwise the display name is the content of the first
  truthy name field as it is, string or not, and that is the name of the entry in the
  output; a display name that is not a string gets no KB id and no links.
\<close>

theorem annotate_never_fails:
  "(\<exists>items. annotate records = Inr items) \<and>
   (\<exists>h. buildMeta v = Inr h) \<and>
   ((\<forall>kvs. r \<noteq> JObj kvs) \<longrightarrow> resolveName r = Inr (JStr [])) \<and>
   (noTruthyNameField kvs \<longrightarrow> resolveName (JObj kvs) = Inr (JStr [])) \<and>
   resolveName (JObj kvs) = Inr (truthyDisplayName kvs) \<and>
   (map_of kvs ''source'' = Some x \<and> truthy x \<longrightarrow> resolveName (JObj kvs) = Inr x) \<and>
   (\<exists>it. annotate [JObj kvs] = Inr [it] \<and> nm it = truthyDisplayName kvs) \<and>
   ((\<forall>s. name \<noteq> JStr s) \<longrightarrow>
      sourceItem name = Inr (plainItem name) \<and> padded (plainItem name) = None \<and>
      externalUrl (plainItem name) = None \<and> downloadUrl (plainItem name) = None)"
proof (intro conjI impI)
  show "\<exists>items. annotate records = Inr items" using annotate_total [of records] by blast
  show "\<exists>h. buildMeta v = Inr h" by (rule buildMeta_total)
  show "resolveName (JObj kvs) = Inr (truthyDisplayName kvs)" by (rule resolveName_JObj)
  show "\<exists>it. annotate [JObj kvs] = Inr [it] \<and> nm it = truthyDisplayName kvs"
  proof -
    have "map resolveName [JObj kvs] = map Inr [truthyDisplayName kvs]"
      by (simp add: resolveName_JObj)
    from annotate_names [OF this] obtain items where
      i: "annotate [JObj kvs] = Inr items" "map nm items = [truthyDisplayName kvs]" by auto
    from i(2) obtain it where "items = [it]" "nm it = truthyDisplayName kvs" by auto
    with i(1) show ?thesis by blast
  qed
  show "externalUrl (plainItem name) = None" by (simp add: plainItem_def)
  show "downloadUrl (plainItem name) = None" by (simp add: plainItem_def)
next
  assume "\<forall>kvs. r \<noteq> JObj kvs"
  then show "resolveName r = Inr (JStr [])" by (rule resolveName_not_object)
next
  assume "noTruthyNameField kvs"
  then have "truthyDisplayName kvs = JStr []"
    by (auto simp: noTruthyNameField_def truthyDisplayName_def nameKeys_def split: option.splits)
  then show "resolveName (JObj kvs) = Inr (JStr [])" by (simp add: resolveName_JObj)
next
  assume "map_of kvs ''source'' = Some x \<and> truthy x"
  then have "truthyDisplayName kvs = x" by (simp add: truthyDisplayName_def nameKeys_def)
  then show "resolveName (JObj kvs) = Inr x" by (simp add: resolveName_JObj)
next
  assume n: "\<forall>s. name \<noteq> JStr s"
  then have e: "extractKbDigits name = None" by (rule extractKbDigits_not_string)
  then show "sourceItem name = Inr (plainItem name)" by (rule sourceItem_None)
  from e show "padded (plainItem name) = None" by (simp add: plainItem_def)
qed

theorem annotate_never_fails_witness:
  "(\<exists>items. annotate [JNull, JObj [(''source'', JNull)], JNum (Finite 3), JObj [(''file'', JArr [])]]
       = Inr items) \<and>
   resolveName JNull = Inr (JStr []) \<and>
   resolveName (JObj [(''source'', JNull), (''title'', JNum (Finite 0))]) = Inr (JStr []) \<and>
   resolveName (JObj [(''source'', JNum (Finite 42)), (''title'', JStr ''T'')])
     = Inr (JNum (Finite 42)) \<and>
   sourceItem (JNum (Finite 42)) = Inr (plainItem (JNum (Finite 42))) \<and>
   padded (plainItem (JNum (Finite 42))) = None"
proof -
  have a: "\<forall>kvs. JNull \<noteq> JObj kvs" by simp
  have b: "noTruthyNameField [(''source'', JNull), (''title'', JNum (Finite 0))]"
    by (simp add: noTruthyNameField_def nameKeys_def)
  have c: "\<forall>s. JNum (Finite 42) \<noteq> JStr s" by simp
  have d: "map_of [(''source'', JNum (Finite 42)), (''title'', JStr ''T'')] ''source''
             = Some (JNum (Finite 42)) \<and> truthy (JNum (Finite 42))" by simp
  note T1 = annotate_never_fails
    [where records = "[JNull, JObj [(''source'', JNull)], JNum (Finite 3), JObj [(''file'', JArr [])]]"
       and r = JNull and kvs = "[(''source'', JNull), (''title'', JNum (Finite 0))]"
       and name = "JNum (Finite 42)"]
  note T2 = annotate_never_fails
    [where kvs = "[(''source'', JNum (Finite 42)), (''title'', JStr ''T'')]"
       and x = "JNum (Finite 42)"]
  from T1 a b c have
    "(\<exists>items. annotate [JNull, JObj [(''source'', JNull)], JNum (Finite 3), JObj [(''file'', JArr [])]]
       = Inr items)"
    "resolveName JNull = Inr (JStr [])"
    "resolveName (JObj [(''source'', JNull), (''title'', JNum (Finite 0))]) = Inr (JStr [])"
    "sourceItem (JNum (Finite 42)) = Inr (plainItem (JNum (Finite 42)))"
    "padded (plainItem (JNum (Finite 42))) = None"
    by blast+
  moreover from T2 d have
    "resolveName (JObj [(''source'', JNum (Finite 42)), (''title'', JStr ''T'')])
       = Inr (JNum (Finite 42))" by blast
  ultimately show ?thesis by blast
qed

section \<open>One turn of sendQuestion\<close>


lemma chat_history_pushMessage [simp]: "chat_history (pushMessage r t m st) = chat_history st"
  by (simp add: pushMessage_def)












end
